theory Spec2Isabelle
  imports Main "HOL-Library.Multiset" "HOL-Library.Sublist"
begin

section \<open>The accounts tab of the banking panel (src/tab.ts)\<close>

text \<open>
  The development embeds \<^verbatim>\<open>BankingTab.initAccountsTab\<close>: the closures
  \<^verbatim>\<open>formatDate\<close>, \<^verbatim>\<open>showAccounts\<close>, \<^verbatim>\<open>getSortType\<close>, \<^verbatim>\<open>checkNames\<close> and the
  callback of the deletion dialog.

  Conventions of the embedding.
  \<^item> A JavaScript string is a \<open>string\<close> of ASCII characters. \<^verbatim>\<open>toLocaleUpperCase\<close>
    maps \<open>a\<close>..\<open>z\<close> to \<open>A\<close>..\<open>Z\<close> and leaves every other character alone;
    \<^verbatim>\<open>trim\<close> strips the ASCII white space (codes 9 to 13 and 32).
  \<^item> A JavaScript number that holds a balance, an amount or an epoch is an \<open>int\<close>
    (the spec's data model has integer balances); \<^verbatim>\<open>NaN\<close>, infinities and
    rounding beyond \<open>2^53\<close> are outside the model.
  \<^item> \<^verbatim>\<open>Array.prototype.sort\<close> and the locale's rendering of a date belong to the
    host; they are the fields of the record \<open>env\<close>. What ECMAScript promises of the
    former is the predicate \<open>es_sort\<close>; the sort of \<open>host\<close> is the stable
    insertion \<open>stable_sort\<close>.
  \<^item> The stores behind \<^verbatim>\<open>AccountManager\<close> and \<^verbatim>\<open>BankerManager\<close> are fields of
    the state; two ghost fields log the calls of \<^verbatim>\<open>getBankers\<close> and
    \<^verbatim>\<open>removeAccounts\<close>.
\<close>

subsection \<open>Strings\<close>

definition is_lower :: "char \<Rightarrow> bool" where
  "is_lower c = (97 \<le> (of_char c :: nat) \<and> (of_char c :: nat) \<le> 122)"

text \<open>A lower-case letter loses the bit of weight 32: code 97 becomes 65, and so on.\<close>

definition upper_char :: "char \<Rightarrow> char" where
  "upper_char c =
     (if is_lower c
      then (case c of Char b0 b1 b2 b3 b4 b5 b6 b7 \<Rightarrow> Char b0 b1 b2 b3 b4 False b6 b7)
      else c)"

definition toLocaleUpperCase :: "string \<Rightarrow> string" where
  "toLocaleUpperCase s = map upper_char s"

definition is_space :: "char \<Rightarrow> bool" where
  "is_space c = ((9 \<le> (of_char c :: nat) \<and> (of_char c :: nat) \<le> 13) \<or> (of_char c :: nat) = 32)"

definition trim :: "string \<Rightarrow> string" where
  "trim s = rev (dropWhile is_space (rev (dropWhile is_space s)))"

text \<open>\<^verbatim>\<open>s.includes(t)\<close>: \<open>t\<close> occurs in \<open>s\<close> as a contiguous substring.\<close>

fun str_includes :: "string \<Rightarrow> string \<Rightarrow> bool" where
  "str_includes [] t = (t = [])"
| "str_includes (c # s) t = (prefix t (c # s) \<or> str_includes s t)"

definition is_digit :: "char \<Rightarrow> bool" where
  "is_digit c = (48 \<le> (of_char c :: nat) \<and> (of_char c :: nat) \<le> 57)"

text \<open>The value of a run of decimal digits, as unary \<^verbatim>\<open>+\<close> computes it.\<close>

definition digits_value :: "string \<Rightarrow> nat" where
  "digits_value ds = foldl (\<lambda>n c. 10 * n + ((of_char c :: nat) - 48)) 0 ds"

text \<open>\<^verbatim>\<open>name.match(/(\d+)/)\<close>: the leftmost, longest run of digits, if there is one.\<close>

definition match_digits :: "string \<Rightarrow> string option" where
  "match_digits s =
     (case dropWhile (\<lambda>c. \<not> is_digit c) s of
        [] \<Rightarrow> None
      | d # r \<Rightarrow> Some (takeWhile is_digit (d # r)))"

text \<open>
  \<^verbatim>\<open>/balance:[<>]?\d+/i.test(s)\<close>. \<open>balance_re_at\<close> matches the pattern at the head
  of the string: the eight characters of \<^verbatim>\<open>balance:\<close> compared without regard to
  case, then a digit, or one of \<^verbatim>\<open><\<close> and \<^verbatim>\<open>>\<close> and then a digit. The test itself tries
  every position.
\<close>

fun starts_with_ci :: "string \<Rightarrow> string \<Rightarrow> string option" where
  "starts_with_ci [] s = Some s"
| "starts_with_ci (p # ps) [] = None"
| "starts_with_ci (p # ps) (c # s) =
     (if upper_char p = upper_char c then starts_with_ci ps s else None)"

definition digit_ahead :: "string \<Rightarrow> bool" where
  "digit_ahead s = (case s of [] \<Rightarrow> False | c # _ \<Rightarrow> is_digit c)"

definition balance_re_at :: "string \<Rightarrow> bool" where
  "balance_re_at s =
     (case starts_with_ci ''balance:'' s of
        None \<Rightarrow> False
      | Some r \<Rightarrow>
          digit_ahead r \<or>
          (case r of
             [] \<Rightarrow> False
           | c # r' \<Rightarrow> (c = CHR ''<'' \<or> c = CHR ''>'') \<and> digit_ahead r'))"

fun balance_re_test :: "string \<Rightarrow> bool" where
  "balance_re_test [] = balance_re_at []"
| "balance_re_test (c # s) = (balance_re_at (c # s) \<or> balance_re_test s)"

text \<open>The decimal rendering of a length inside a template string.\<close>

definition digit_char :: "nat \<Rightarrow> char" where
  "digit_char d = ''0123456789'' ! d"

function show_nat :: "nat \<Rightarrow> string" where
  "show_nat n = (if n < 10 then [digit_char n] else show_nat (n div 10) @ [digit_char (n mod 10)])"
  by pat_completeness auto
termination
  by (relation "measure id") auto

subsection \<open>Records, rows and the state of the tab\<close>

record account =
  name :: string
  balance :: int
  last_daily_award :: "int option"

datatype sort_type = Bal_d | Bal_a | Daily_d | Daily_a | Other_sort

text \<open>One \<^verbatim>\<open>tr[account_name]\<close> of the table, as \<^verbatim>\<open>buildTemplate\<close> fills it.\<close>

record row =
  row_account_name :: string
  row_name_text :: string
  row_award_text :: string
  row_checked :: bool
  row_value :: int

text \<open>
  The host: \<^verbatim>\<open>Array.prototype.sort\<close> with a comparator, and the two renderings of
  \<^verbatim>\<open>new Date(epoch)\<close> in the locale.
\<close>

record env =
  array_sort :: "(account \<Rightarrow> account \<Rightarrow> int) \<Rightarrow> account list \<Rightarrow> account list"
  toLocaleDateString :: "int \<Rightarrow> string"
  toLocaleTimeString :: "int \<Rightarrow> string"

record tab_state =
  input_value :: string
  sort_checked :: sort_type
  accounts_store :: "account list"
  bankers_store :: "string list"
  rows :: "row list"
  notifications :: "string list"
  getBankers_calls :: nat
  removeAccounts_calls :: "string list list"

subsection \<open>The stores\<close>

text \<open>
  \<^verbatim>\<open>BankerManager\<close> and \<^verbatim>\<open>AccountManager\<close> (./stored) are not among the sources; their
  operations follow the interfaces of the spec, on the two store fields of the state.
\<close>

text \<open>
  Modelled from the spec: \<^verbatim>\<open>BankerManager.setBanker\<close> is missing. The spec gives the
  store as a set of account names and \<^verbatim>\<open>setBanker(name, bool) -> void\<close>: the name is in
  the set afterwards exactly when the flag is true.
\<close>

definition setBanker :: "string \<Rightarrow> bool \<Rightarrow> tab_state \<Rightarrow> tab_state" where
  "setBanker n b s =
     s\<lparr>bankers_store :=
         (if b then (if n \<in> set (bankers_store s) then bankers_store s else bankers_store s @ [n])
          else removeAll n (bankers_store s))\<rparr>"

text \<open>
  Modelled from the spec: \<^verbatim>\<open>BankerManager.isBanker\<close> is missing. The spec gives
  \<^verbatim>\<open>isBanker(name) -> bool\<close>, membership in the set.
\<close>

definition isBanker :: "tab_state \<Rightarrow> string \<Rightarrow> bool" where
  "isBanker s n = (n \<in> set (bankers_store s))"

text \<open>
  Modelled from the spec: \<^verbatim>\<open>BankerManager.getBankers\<close> is missing. The spec gives
  \<^verbatim>\<open>listAll() -> set of string\<close>; the source uses the result as an array. The ghost
  counter records the call.
\<close>

definition getBankers :: "tab_state \<Rightarrow> string list \<times> tab_state" where
  "getBankers s = (bankers_store s, s\<lparr>getBankers_calls := getBankers_calls s + 1\<rparr>)"

text \<open>
  Modelled from the spec: \<^verbatim>\<open>AccountManager.getAll\<close> is missing. The spec gives
  \<^verbatim>\<open>getAll() -> ordered sequence of Record\<close>.
\<close>

definition getAll :: "tab_state \<Rightarrow> account list" where
  "getAll s = accounts_store s"

text \<open>
  Modelled from the spec: \<^verbatim>\<open>AccountManager.removeAccounts\<close> is missing. The spec gives
  \<^verbatim>\<open>remove(names: set of string) -> void\<close>: the records of those names leave the
  store. The ghost log records the call and its argument.
\<close>

definition removeAccounts :: "string list \<Rightarrow> tab_state \<Rightarrow> tab_state" where
  "removeAccounts names s =
     s\<lparr>accounts_store := filter (\<lambda>a. name a \<notin> set names) (accounts_store s),
       removeAccounts_calls := removeAccounts_calls s @ [names]\<rparr>"

subsection \<open>formatDate and showAccounts\<close>

text \<open>\<^verbatim>\<open>!epoch\<close> holds of \<^verbatim>\<open>undefined\<close> and of \<open>0\<close>.\<close>

definition falsy :: "int option \<Rightarrow> bool" where
  "falsy epoch = (case epoch of None \<Rightarrow> True | Some e \<Rightarrow> e = 0)"

definition epoch_of :: "int option \<Rightarrow> int" where
  "epoch_of epoch = (case epoch of None \<Rightarrow> 0 | Some e \<Rightarrow> e)"

definition formatDate :: "env \<Rightarrow> int option \<Rightarrow> string" where
  "formatDate env epoch =
     (if falsy epoch then ''Never''
      else toLocaleDateString env (epoch_of epoch) @ '' '' @ toLocaleTimeString env (epoch_of epoch))"

definition build_row :: "env \<Rightarrow> tab_state \<Rightarrow> account \<Rightarrow> row" where
  "build_row env s a =
     \<lparr>row_account_name = name a,
      row_name_text = name a,
      row_award_text = formatDate env (last_daily_award a),
      row_checked = isBanker s (name a),
      row_value = balance a\<rparr>"

definition showAccounts :: "env \<Rightarrow> account list \<Rightarrow> tab_state \<Rightarrow> tab_state" where
  "showAccounts env accounts s = s\<lparr>rows := map (build_row env s) accounts\<rparr>"

subsection \<open>checkNames\<close>

text \<open>
  Lines 88 to 92: the check boxes of the rows on the page are written to the store, row
  after row.
\<close>

definition update_bankers :: "tab_state \<Rightarrow> tab_state" where
  "update_bankers s = foldl (\<lambda>st r. setBanker (row_account_name r) (row_checked r) st) s (rows s)"

text \<open>
  Lines 94 to 112: the filter chosen for the search text. The call of \<^verbatim>\<open>getBankers\<close>
  is in the branch of \<^verbatim>\<open>IS:BANKER\<close> alone, and outside the closure it returns.
\<close>

definition search_name :: "string \<Rightarrow> string" where
  "search_name raw = trim (toLocaleUpperCase raw)"

definition parse :: "string \<Rightarrow> tab_state \<Rightarrow> (account \<Rightarrow> bool) \<times> tab_state" where
  "parse raw s =
     (let nm = search_name raw in
      if nm = [] then (\<lambda>account. True, s)
      else if nm = ''IS:BANKER'' then
        (let (bankers, s') = getBankers s in (\<lambda>account. name account \<in> set bankers, s'))
      else if balance_re_test nm then
        (let amount = (case match_digits nm of None \<Rightarrow> 0 | Some ds \<Rightarrow> int (digits_value ds)) in
         if CHR ''<'' \<in> set nm then (\<lambda>account. balance account < amount, s)
         else if CHR ''>'' \<in> set nm then (\<lambda>account. balance account > amount, s)
         else (\<lambda>account. balance account = amount, s))
      else (\<lambda>account. str_includes (name account) nm, s))"

text \<open>Lines 117 to 140: the four comparators and the switch.\<close>

definition cmp_bal_d :: "account \<Rightarrow> account \<Rightarrow> int" where
  "cmp_bal_d a b = balance b - balance a"

definition cmp_bal_a :: "account \<Rightarrow> account \<Rightarrow> int" where
  "cmp_bal_a a b = balance a - balance b"

definition cmp_daily_d :: "account \<Rightarrow> account \<Rightarrow> int" where
  "cmp_daily_d a b =
     (if falsy (last_daily_award a) then 1
      else if falsy (last_daily_award b) then - 1
      else epoch_of (last_daily_award b) - epoch_of (last_daily_award a))"

definition cmp_daily_a :: "account \<Rightarrow> account \<Rightarrow> int" where
  "cmp_daily_a a b =
     (if falsy (last_daily_award a) then 1
      else if falsy (last_daily_award b) then - 1
      else epoch_of (last_daily_award a) - epoch_of (last_daily_award b))"

definition sort_accounts :: "env \<Rightarrow> sort_type \<Rightarrow> account list \<Rightarrow> account list" where
  "sort_accounts env mode accounts =
     (case mode of
        Bal_d \<Rightarrow> array_sort env cmp_bal_d accounts
      | Bal_a \<Rightarrow> array_sort env cmp_bal_a accounts
      | Daily_d \<Rightarrow> array_sort env cmp_daily_d accounts
      | Daily_a \<Rightarrow> array_sort env cmp_daily_a accounts
      | Other_sort \<Rightarrow> accounts)"

text \<open>
  Lines 94 to 140, on the state the write-back of lines 88 to 92 leaves: the list that
  is filtered, then sorted, and not yet cut.
\<close>

definition matches :: "env \<Rightarrow> tab_state \<Rightarrow> account list" where
  "matches env s1 =
     (let (accountFilter, s2) = parse (input_value s1) s1
      in sort_accounts env (sort_checked s2) (filter accountFilter (getAll s2)))"

definition notify :: "string \<Rightarrow> tab_state \<Rightarrow> tab_state" where
  "notify msg s = s\<lparr>notifications := notifications s @ [msg]\<rparr>"

text \<open>Lines 94 to 148: filter, sort, cap with its notice, and render.\<close>

definition run_pipeline :: "env \<Rightarrow> tab_state \<Rightarrow> tab_state" where
  "run_pipeline env s1 =
     (let (accountFilter, s2) = parse (input_value s1) s1;
          accounts = sort_accounts env (sort_checked s2) (filter accountFilter (getAll s2))
      in if length accounts > 300
         then showAccounts env (take 300 accounts)
                (notify (''Showing 300/'' @ show_nat (length accounts) @ '' matches'') s2)
         else showAccounts env accounts s2)"

text \<open>Lines 86 to 149: the write-back, then the rest.\<close>

definition checkNames :: "env \<Rightarrow> tab_state \<Rightarrow> tab_state" where
  "checkNames env s = run_pipeline env (update_bankers s)"

subsection \<open>The deletion dialog\<close>

text \<open>Lines 159 to 166: the callback handed to \<^verbatim>\<open>ui.alert\<close>, run with the button chosen.\<close>

definition delete_response :: "env \<Rightarrow> string \<Rightarrow> tab_state \<Rightarrow> tab_state" where
  "delete_response env response s =
     (if response \<noteq> ''Delete'' then s
      else checkNames env (removeAccounts (map row_account_name (rows s)) s))"

subsection \<open>What the host provides\<close>

text \<open>
  ECMAScript asks of \<^verbatim>\<open>Array.prototype.sort\<close> that the result holds the elements of the
  array, and, when the comparator is a consistent comparison function for them, that it
  is in the comparator's order and stable. With any other comparator the order is
  left to the implementation. \<open>consistent\<close> is the standard's list of
  requirements: \<open>=\<close> reflexive, symmetric and transitive, \<open><\<close> and \<open>>\<close> transitive.
\<close>

definition consistent :: "('a \<Rightarrow> 'a \<Rightarrow> int) \<Rightarrow> 'a set \<Rightarrow> bool" where
  "consistent cmp S =
     ((\<forall>a\<in>S. cmp a a = 0) \<and>
      (\<forall>a\<in>S. \<forall>b\<in>S. cmp a b = 0 \<longrightarrow> cmp b a = 0) \<and>
      (\<forall>a\<in>S. \<forall>b\<in>S. \<forall>c\<in>S. cmp a b = 0 \<longrightarrow> cmp b c = 0 \<longrightarrow> cmp a c = 0) \<and>
      (\<forall>a\<in>S. \<forall>b\<in>S. \<forall>c\<in>S. cmp a b < 0 \<longrightarrow> cmp b c < 0 \<longrightarrow> cmp a c < 0) \<and>
      (\<forall>a\<in>S. \<forall>b\<in>S. \<forall>c\<in>S. 0 < cmp a b \<longrightarrow> 0 < cmp b c \<longrightarrow> 0 < cmp a c))"

definition es_sort :: "(('a \<Rightarrow> 'a \<Rightarrow> int) \<Rightarrow> 'a list \<Rightarrow> 'a list) \<Rightarrow> bool" where
  "es_sort srt =
     (\<forall>cmp xs.
        mset (srt cmp xs) = mset xs \<and>
        (consistent cmp (set xs) \<longrightarrow>
           sorted_wrt (\<lambda>a b. cmp a b \<le> 0) (srt cmp xs) \<and>
           (\<forall>k\<in>set xs. filter (\<lambda>x. cmp k x = 0) (srt cmp xs) = filter (\<lambda>x. cmp k x = 0) xs)))"

text \<open>
  Modelled from the spec: \<^verbatim>\<open>Array.prototype.sort\<close> is the engine's and not among the
  sources. The spec gives the sort as stable: ties retain their prior relative order,
  and no secondary key is defined. \<open>insert_behind\<close> is the step of a stable
  insertion. The elements placed so far are held last first; the new element, which came
  later in the input, moves in front of those for which the comparator, asked with the
  later element first, answers negative, and stays behind the first one for which it
  answers zero or positive.
\<close>

fun insert_behind :: "('a \<Rightarrow> 'a \<Rightarrow> int) \<Rightarrow> 'a \<Rightarrow> 'a list \<Rightarrow> 'a list" where
  "insert_behind cmp x [] = [x]"
| "insert_behind cmp x (e # es) = (if cmp x e < 0 then e # insert_behind cmp x es else x # e # es)"

text \<open>
  Modelled from the spec: \<^verbatim>\<open>Array.prototype.sort\<close> is missing. The elements are placed
  one after the other, in the order of the input.
\<close>

definition placed :: "('a \<Rightarrow> 'a \<Rightarrow> int) \<Rightarrow> 'a list \<Rightarrow> 'a list" where
  "placed cmp xs = foldl (\<lambda>ys x. insert_behind cmp x ys) [] xs"

text \<open>
  Modelled from the spec: \<^verbatim>\<open>Array.prototype.sort\<close> is missing. The stable sort of the
  spec, by insertion.
\<close>

definition stable_sort :: "('a \<Rightarrow> 'a \<Rightarrow> int) \<Rightarrow> 'a list \<Rightarrow> 'a list" where
  "stable_sort cmp xs = rev (placed cmp xs)"

text \<open>
  Modelled from the spec: the engine's \<^verbatim>\<open>Array.prototype.sort\<close> and the locale are not
  among the sources. The host has the stable sort of the spec; for the date it gives
  the day since the epoch, and for the time the millisecond of the day.
\<close>

definition host :: env where
  "host =
     \<lparr>array_sort = stable_sort,
      toLocaleDateString = (\<lambda>e. show_nat (nat (e div 86400000))),
      toLocaleTimeString = (\<lambda>e. show_nat (nat (e mod 86400000)))\<rparr>"

subsection \<open>The debounced listener\<close>

text \<open>
  \<^verbatim>\<open>debounce\<close> (./helpers) is not among the sources. Time is a natural number.
  \<open>timer\<close> is the deadline of the pending call, and \<open>timer_runs\<close> is a ghost log:
  for each run the timer started, the time, and the text the input field held.
\<close>

record panel =
  tab :: tab_state
  timer :: "nat option"
  timer_runs :: "(nat \<times> string) list"

text \<open>
  Modelled from the spec: \<^verbatim>\<open>debounce\<close> is missing. The spec gives the function that
  \<^verbatim>\<open>debounce(checkNames, 300)\<close> returns: a call cancels the pending timer and starts
  it again, 300 time-units ahead.
\<close>

definition debounced_checkNames :: "nat \<Rightarrow> panel \<Rightarrow> panel" where
  "debounced_checkNames now p = p\<lparr>timer := Some (now + 300)\<rparr>"

text \<open>
  Modelled from the spec: the timer of \<^verbatim>\<open>debounce\<close> is missing. Time passes up to
  \<open>now\<close>; a pending call whose deadline has come runs \<^verbatim>\<open>checkNames\<close>, on the state of
  that moment.
\<close>

definition elapse :: "env \<Rightarrow> nat \<Rightarrow> panel \<Rightarrow> panel" where
  "elapse env now p =
     (case timer p of
        None \<Rightarrow> p
      | Some d \<Rightarrow>
          if d \<le> now
          then p\<lparr>tab := checkNames env (tab p), timer := None,
                 timer_runs := timer_runs p @ [(d, input_value (tab p))]\<rparr>
          else p)"

text \<open>
  Line 151: an \<^verbatim>\<open>input\<close> event at time \<open>t\<close> that leaves the text \<open>v\<close> in the field.
\<close>

definition input_event :: "env \<Rightarrow> nat \<times> string \<Rightarrow> panel \<Rightarrow> panel" where
  "input_event env ev p =
     (let p1 = elapse env (fst ev) p
      in debounced_checkNames (fst ev) (p1\<lparr>tab := (tab p1)\<lparr>input_value := snd ev\<rparr>\<rparr>))"

fun input_events :: "env \<Rightarrow> (nat \<times> string) list \<Rightarrow> panel \<Rightarrow> panel" where
  "input_events env [] p = p"
| "input_events env (ev # evs) p = input_events env evs (input_event env ev p)"

text \<open>A burst: the events are in time order, less than 300 apart.\<close>

fun burst :: "(nat \<times> string) list \<Rightarrow> bool" where
  "burst [] = True"
| "burst [ev] = True"
| "burst (ev # ev' # evs) = (fst ev \<le> fst ev' \<and> fst ev' < fst ev + 300 \<and> burst (ev' # evs))"

subsection \<open>A date of zero, erased\<close>

text \<open>The same record without a date, when its date is 0.\<close>

definition never :: "account \<Rightarrow> account" where
  "never a = (if last_daily_award a = Some 0 then a\<lparr>last_daily_award := None\<rparr> else a)"

subsection \<open>Example data\<close>

definition empty_tab :: tab_state where
  "empty_tab =
     \<lparr>input_value = [], sort_checked = Bal_d, accounts_store = [], bankers_store = [],
      rows = [], notifications = [], getBankers_calls = 0, removeAccounts_calls = []\<rparr>"

definition acct :: "string \<Rightarrow> int \<Rightarrow> int option \<Rightarrow> account" where
  "acct n b t = \<lparr>name = n, balance = b, last_daily_award = t\<rparr>"

text \<open>301 accounts under an empty search; the three accounts of the spec's example.\<close>

definition crowd :: tab_state where
  "crowd = empty_tab\<lparr>sort_checked := Bal_a, accounts_store := replicate 301 (acct ''A'' 1 None)\<rparr>"

definition trio :: tab_state where
  "trio =
     empty_tab\<lparr>input_value := ''balance:10'',
       accounts_store := [acct ''AAA'' 10 (Some 5), acct ''BBB'' 200 (Some 7), acct ''CCC'' 10 None]\<rparr>"

text \<open>
  A page that shows BOB and AL, BOB's box checked by the user a moment ago, and the
  same stores with nothing rendered and other logs.
\<close>

definition page :: tab_state where
  "page =
     \<lparr>input_value = '' is:banker '', sort_checked = Bal_d,
      accounts_store = [acct ''AL'' 5 None, acct ''BOB'' 0 (Some 9), acct ''CY'' 7 None],
      bankers_store = [''CY''],
      rows = [\<lparr>row_account_name = ''BOB'', row_name_text = ''BOB'', row_award_text = ''0 9'',
                row_checked = True, row_value = 0\<rparr>,
              \<lparr>row_account_name = ''AL'', row_name_text = ''AL'', row_award_text = ''Never'',
                row_checked = False, row_value = 5\<rparr>],
      notifications = [], getBankers_calls = 0, removeAccounts_calls = []\<rparr>"

definition page_later :: tab_state where
  "page_later =
     page\<lparr>bankers_store := [''BOB'', ''CY''], rows := [], notifications := [''earlier notice''],
       getBankers_calls := 4, removeAccounts_calls := [[''DAN'']]\<rparr>"

text \<open>The panel at rest, nothing pending.\<close>

definition idle :: panel where
  "idle = \<lparr>tab = trio, timer = None, timer_runs = []\<rparr>"

section \<open>Properties\<close>

subsection \<open>Evaluating the string functions\<close>

lemmas str_eval =
  search_name_def trim_def toLocaleUpperCase_def upper_char_def is_lower_def is_space_def
  balance_re_at_def digit_ahead_def is_digit_def match_digits_def digits_value_def
  digit_char_def

subsection \<open>The comparator's requirements, and the stable sort\<close>


lemma consistent_flip:
  assumes c: "consistent cmp S" and m: "a \<in> S" "b \<in> S" and g: "0 < cmp a b"
  shows "cmp b a < 0"
proof (rule ccontr)
  assume "\<not> cmp b a < 0"
  then consider "cmp b a = 0" | "0 < cmp b a" by linarith
  then show False
  proof cases
    case 1
    with c m have "cmp a b = 0" unfolding consistent_def by blast
    with g show False by simp
  next
    case 2
    with c m g have "0 < cmp a a" unfolding consistent_def by blast
    moreover from c m have "cmp a a = 0" unfolding consistent_def by blast
    ultimately show False by simp
  qed
qed

lemma consistent_flip_neg:
  assumes c: "consistent cmp S" and m: "a \<in> S" "b \<in> S" and g: "cmp a b < 0"
  shows "0 < cmp b a"
proof (rule ccontr)
  assume "\<not> 0 < cmp b a"
  then consider "cmp b a = 0" | "cmp b a < 0" by linarith
  then show False
  proof cases
    case 1
    with c m have "cmp a b = 0" unfolding consistent_def by blast
    with g show False by simp
  next
    case 2
    with c m g have "cmp a a < 0" unfolding consistent_def by blast
    moreover from c m have "cmp a a = 0" unfolding consistent_def by blast
    ultimately show False by simp
  qed
qed

lemma consistent_eq_less:
  assumes c: "consistent cmp S" and m: "a \<in> S" "b \<in> S" "d \<in> S"
    and e: "cmp a b = 0" and l: "cmp b d < 0"
  shows "cmp a d < 0"
proof (rule ccontr)
  assume "\<not> cmp a d < 0"
  then consider "cmp a d = 0" | "0 < cmp a d" by linarith
  then show False
  proof cases
    case 1
    from c m e have "cmp b a = 0" unfolding consistent_def by blast
    with c m 1 have "cmp b d = 0" unfolding consistent_def by blast
    with l show False by simp
  next
    case 2
    from consistent_flip [OF c m(1) m(3) 2] have "cmp d a < 0" .
    with c m l have "cmp b a < 0" unfolding consistent_def by blast
    moreover from c m e have "cmp b a = 0" unfolding consistent_def by blast
    ultimately show False by simp
  qed
qed

lemma consistent_less_eq:
  assumes c: "consistent cmp S" and m: "a \<in> S" "b \<in> S" "d \<in> S"
    and l: "cmp a b < 0" and e: "cmp b d = 0"
  shows "cmp a d < 0"
proof (rule ccontr)
  assume "\<not> cmp a d < 0"
  then consider "cmp a d = 0" | "0 < cmp a d" by linarith
  then show False
  proof cases
    case 1
    from c m e have "cmp d b = 0" unfolding consistent_def by blast
    with c m 1 have "cmp a b = 0" unfolding consistent_def by blast
    with l show False by simp
  next
    case 2
    from consistent_flip [OF c m(1) m(3) 2] have "cmp d a < 0" .
    with c m l have "cmp d b < 0" unfolding consistent_def by blast
    moreover from c m e have "cmp d b = 0" unfolding consistent_def by blast
    ultimately show False by simp
  qed
qed

lemma consistent_le_trans:
  assumes c: "consistent cmp S" and m: "a \<in> S" "b \<in> S" "d \<in> S"
    and ab: "cmp a b \<le> 0" and bd: "cmp b d \<le> 0"
  shows "cmp a d \<le> 0"
proof -
  consider "cmp a b = 0" "cmp b d = 0" | "cmp a b = 0" "cmp b d < 0"
    | "cmp a b < 0" "cmp b d = 0" | "cmp a b < 0" "cmp b d < 0"
    using ab bd by linarith
  then show ?thesis
  proof cases
    case 1
    with c m have "cmp a d = 0" unfolding consistent_def by blast
    then show ?thesis by simp
  next
    case 2
    from consistent_eq_less [OF c m 2] show ?thesis by simp
  next
    case 3
    from consistent_less_eq [OF c m 3] show ?thesis by simp
  next
    case 4
    with c m have "cmp a d < 0" unfolding consistent_def by blast
    then show ?thesis by simp
  qed
qed

lemma placed_Nil [simp]: "placed cmp [] = []"
  by (simp add: placed_def)

lemma placed_snoc [simp]: "placed cmp (xs @ [x]) = insert_behind cmp x (placed cmp xs)"
  by (simp add: placed_def)

lemma mset_insert_behind: "mset (insert_behind cmp x es) = add_mset x (mset es)"
  by (induction es) auto

lemma set_insert_behind: "set (insert_behind cmp x es) = insert x (set es)"
  by (induction es) auto

lemma mset_placed: "mset (placed cmp xs) = mset xs"
  by (induction xs rule: rev_induct) (simp_all add: mset_insert_behind)

lemma set_placed: "set (placed cmp xs) = set xs"
  by (metis mset_placed set_mset_mset)

lemma mset_stable_sort: "mset (stable_sort cmp xs) = mset xs"
  by (simp add: stable_sort_def mset_placed)

lemma set_stable_sort: "set (stable_sort cmp xs) = set xs"
  by (simp add: stable_sort_def set_placed)

lemma length_stable_sort: "length (stable_sort cmp xs) = length xs"
  by (metis mset_stable_sort size_mset)

text \<open>Ties: an element never moves in front of one that it is not strictly before.\<close>

lemma filter_insert_behind:
  assumes "\<forall>e\<in>set es. K x \<longrightarrow> K e \<longrightarrow> \<not> cmp x e < 0"
  shows "filter K (insert_behind cmp x es) = (if K x then x # filter K es else filter K es)"
  using assms by (induction es) auto

lemma stable_sort_keeps:
  assumes "\<forall>x\<in>set xs. \<forall>y\<in>set xs. K x \<longrightarrow> K y \<longrightarrow> \<not> cmp x y < 0"
  shows "filter K (stable_sort cmp xs) = filter K xs"
  using assms
proof (induction xs rule: rev_induct)
  case Nil
  then show ?case by (simp add: stable_sort_def)
next
  case (snoc x xs)
  then have ih: "filter K (rev (placed cmp xs)) = filter K xs"
    by (simp add: stable_sort_def)
  from snoc.prems have "\<forall>e\<in>set (placed cmp xs). K x \<longrightarrow> K e \<longrightarrow> \<not> cmp x e < 0"
    by (simp add: set_placed)
  from filter_insert_behind [of "placed cmp xs" K x cmp, OF this] ih show ?case
    by (simp add: stable_sort_def flip: rev_filter)
qed

text \<open>The sort commutes with a change of the records that no answer of the comparator sees.\<close>

lemma map_insert_behind:
  assumes "\<And>x y. cmp (f x) (f y) = cmp x y"
  shows "map f (insert_behind cmp x es) = insert_behind cmp (f x) (map f es)"
  by (induction es) (simp_all add: assms)

lemma map_stable_sort:
  assumes "\<And>x y. cmp (f x) (f y) = cmp x y"
  shows "map f (stable_sort cmp xs) = stable_sort cmp (map f xs)"
proof -
  have "map f (placed cmp xs) = placed cmp (map f xs)"
    by (induction xs rule: rev_induct) (simp_all add: map_insert_behind [of cmp f, OF assms])
  then show ?thesis by (simp add: stable_sort_def flip: rev_map)
qed

text \<open>With a consistent comparator the result is in order.\<close>

lemma sorted_insert_behind:
  assumes c: "consistent cmp S" and x: "x \<in> S"
  shows "set es \<subseteq> S \<Longrightarrow> sorted_wrt (\<lambda>a b. cmp b a \<le> 0) es
    \<Longrightarrow> sorted_wrt (\<lambda>a b. cmp b a \<le> 0) (insert_behind cmp x es)"
proof (induction es)
  case Nil
  then show ?case by simp
next
  case (Cons e es)
  from Cons.prems have e: "e \<in> S" and es: "set es \<subseteq> S"
    and le: "\<forall>z\<in>set es. cmp z e \<le> 0" and srt: "sorted_wrt (\<lambda>a b. cmp b a \<le> 0) es"
    by auto
  show ?case
  proof (cases "cmp x e < 0")
    case True
    with le Cons.IH [OF es srt] show ?thesis
      by (simp add: set_insert_behind)
  next
    case False
    have ex: "cmp e x \<le> 0"
    proof (cases "cmp x e = 0")
      case True
      with c x e have "cmp e x = 0" unfolding consistent_def by blast
      then show ?thesis by simp
    next
      case False
      with \<open>\<not> cmp x e < 0\<close> have "0 < cmp x e" by simp
      from consistent_flip [OF c x e this] show ?thesis by simp
    qed
    have "\<forall>z\<in>set es. cmp z x \<le> 0"
    proof
      fix z assume z: "z \<in> set es"
      with es have "z \<in> S" by blast
      from consistent_le_trans [OF c this e x] le z ex show "cmp z x \<le> 0" by blast
    qed
    with False ex le srt show ?thesis by simp
  qed
qed

lemma sorted_stable_sort:
  assumes c: "consistent cmp (set xs)"
  shows "sorted_wrt (\<lambda>a b. cmp a b \<le> 0) (stable_sort cmp xs)"
proof -
  have "set ys \<subseteq> set xs \<Longrightarrow> sorted_wrt (\<lambda>a b. cmp b a \<le> 0) (placed cmp ys)" for ys
  proof (induction ys rule: rev_induct)
    case Nil
    then show ?case by simp
  next
    case (snoc y ys)
    then have "y \<in> set xs" "set (placed cmp ys) \<subseteq> set xs"
      by (auto simp: set_placed)
    with snoc show ?case
      by (simp add: sorted_insert_behind [OF c])
  qed
  from this [of xs] show ?thesis
    by (simp add: stable_sort_def sorted_wrt_rev)
qed

lemma es_sort_stable_sort: "es_sort stable_sort"
  unfolding es_sort_def
proof (intro allI conjI impI ballI)
  fix cmp :: "'a \<Rightarrow> 'a \<Rightarrow> int" and xs
  show "mset (stable_sort cmp xs) = mset xs" by (rule mset_stable_sort)
  assume c: "consistent cmp (set xs)"
  then show "sorted_wrt (\<lambda>a b. cmp a b \<le> 0) (stable_sort cmp xs)" by (rule sorted_stable_sort)
  fix k assume k: "k \<in> set xs"
  have "\<not> cmp x y < 0" if "x \<in> set xs" "y \<in> set xs" "cmp k x = 0" "cmp k y = 0" for x y
  proof -
    from c k that have "cmp x k = 0" unfolding consistent_def by blast
    with c k that have "cmp x y = 0" unfolding consistent_def by blast
    then show ?thesis by simp
  qed
  then show "filter (\<lambda>x. cmp k x = 0) (stable_sort cmp xs) = filter (\<lambda>x. cmp k x = 0) xs"
    by (intro stable_sort_keeps) blast
qed

subsection \<open>Strings\<close>

lemma upper_char_code: "is_lower c \<Longrightarrow> (of_char (upper_char c) :: nat) = of_char c - 32"
proof (cases c)
  case (Char b0 b1 b2 b3 b4 b5 b6 b7)
  assume "is_lower c"
  with Char show ?thesis
    by (cases b0; cases b1; cases b2; cases b3; cases b4; cases b5; cases b6; cases b7)
       (simp_all add: is_lower_def upper_char_def)
qed

lemma upper_char_other: "\<not> is_lower c \<Longrightarrow> upper_char c = c"
  by (simp add: upper_char_def)

lemma str_includes_iff: "str_includes s t \<longleftrightarrow> (\<exists>ps ss. s = ps @ t @ ss)"
proof (induction s)
  case Nil
  then show ?case by auto
next
  case (Cons c s)
  show ?case
  proof
    assume "str_includes (c # s) t"
    then consider "prefix t (c # s)" | "str_includes s t" by auto
    then show "\<exists>ps ss. c # s = ps @ t @ ss"
    proof cases
      case 1
      then obtain ss where "c # s = t @ ss" by (auto simp: prefix_def)
      then have "c # s = [] @ t @ ss" by simp
      then show ?thesis by blast
    next
      case 2
      with Cons.IH obtain ps ss where "s = ps @ t @ ss" by blast
      then have "c # s = (c # ps) @ t @ ss" by simp
      then show ?thesis by blast
    qed
  next
    assume "\<exists>ps ss. c # s = ps @ t @ ss"
    then obtain ps ss where e: "c # s = ps @ t @ ss" by blast
    show "str_includes (c # s) t"
    proof (cases ps)
      case Nil
      with e have "prefix t (c # s)" by (simp add: prefix_def)
      then show ?thesis by simp
    next
      case (Cons p ps')
      with e have "s = ps' @ t @ ss" by simp
      with Cons.IH have "str_includes s t" by blast
      then show ?thesis by simp
    qed
  qed
qed

subsection \<open>The filter\<close>

text \<open>
  C1, as the code has it. For a search text that, upper-cased and trimmed, is not empty,
  is not \<^verbatim>\<open>IS:BANKER\<close> and does not pass the test of the balance pattern, the filter
  accepts a record exactly when the record's name, as it is stored, contains the
  upper-cased and trimmed search text as a substring. The name of the record is not
  upper-cased: only for a record whose stored name is in upper case already is this the
  same as searching the upper-cased name.
\<close>

theorem substring_fallback:
  assumes "search_name raw \<noteq> []" and "search_name raw \<noteq> ''IS:BANKER''"
    and "\<not> balance_re_test (search_name raw)"
  shows "fst (parse raw s) a = str_includes (name a) (search_name raw) \<and>
         (fst (parse raw s) a \<longleftrightarrow> (\<exists>ps ss. name a = ps @ search_name raw @ ss)) \<and>
         (toLocaleUpperCase (name a) = name a \<longrightarrow>
            fst (parse raw s) a = str_includes (toLocaleUpperCase (name a)) (search_name raw))"
  using assms by (simp add: parse_def str_includes_iff)

theorem substring_fallback_witness:
  "search_name ''  bo '' \<noteq> [] \<and> search_name ''  bo '' \<noteq> ''IS:BANKER'' \<and>
   \<not> balance_re_test (search_name ''  bo '') \<and>
   fst (parse ''  bo '' empty_tab) (acct ''BOB'' 5 None) \<and>
   \<not> fst (parse ''  bo '' empty_tab) (acct ''bob'' 5 None)"
proof -
  have n: "search_name ''  bo '' = ''BO''" by (simp add: str_eval)
  have h: "search_name ''  bo '' \<noteq> []" "search_name ''  bo '' \<noteq> ''IS:BANKER''"
    "\<not> balance_re_test (search_name ''  bo '')"
    by (simp_all add: n str_eval)
  from substring_fallback [OF h, of empty_tab "acct ''BOB'' 5 None"]
    substring_fallback [OF h, of empty_tab "acct ''bob'' 5 None"] h
  show ?thesis by (simp add: n acct_def)
qed

text \<open>
  C1 as the spec states it fails: the search text \<^verbatim>\<open>bob\<close> is a plain substring search,
  the upper-cased name of the record \<^verbatim>\<open>bob\<close> contains \<^verbatim>\<open>BOB\<close>, and the filter rejects
  the record.
\<close>

theorem substring_case_counterexample:
  "search_name ''bob'' \<noteq> [] \<and> search_name ''bob'' \<noteq> ''IS:BANKER'' \<and>
   \<not> balance_re_test (search_name ''bob'') \<and>
   str_includes (toLocaleUpperCase (name (acct ''bob'' 5 None))) (search_name ''bob'') \<and>
   \<not> fst (parse ''bob'' empty_tab) (acct ''bob'' 5 None)"
  by (simp add: parse_def str_eval acct_def)

text \<open>
  C2, as the code has it. \<^verbatim>\<open>balance:<100\<close> accepts exactly the records with a balance
  below 100, \<^verbatim>\<open>balance:>50\<close> exactly those with a balance above 50, \<^verbatim>\<open>balance:75\<close>
  exactly those with a balance of 75. The pattern asks for the colon: \<^verbatim>\<open>balance>50\<close>
  is not a balance query, and accepts exactly the records whose name contains
  \<^verbatim>\<open>BALANCE>50\<close>.
\<close>

theorem balance_queries:
  "fst (parse ''balance:<100'' s) a = (balance a < 100) \<and>
   fst (parse ''balance:>50'' s) a = (50 < balance a) \<and>
   fst (parse ''balance:75'' s) a = (balance a = 75) \<and>
   fst (parse ''balance>50'' s) a = str_includes (name a) ''BALANCE>50''"
  by (simp add: parse_def str_eval)

text \<open>
  C2 as the spec states it fails: a record with a balance of 60 is rejected by
  \<^verbatim>\<open>balance>50\<close>.
\<close>

theorem balance_no_colon_counterexample:
  "50 < balance (acct ''RICH'' 60 None) \<and>
   \<not> fst (parse ''balance>50'' empty_tab) (acct ''RICH'' 60 None)"
  by (simp add: parse_def str_eval acct_def)

subsection \<open>What each step leaves alone\<close>


lemma setBanker_fields [simp]:
  "input_value (setBanker n b s) = input_value s"
  "sort_checked (setBanker n b s) = sort_checked s"
  "accounts_store (setBanker n b s) = accounts_store s"
  "rows (setBanker n b s) = rows s"
  "notifications (setBanker n b s) = notifications s"
  "getBankers_calls (setBanker n b s) = getBankers_calls s"
  "removeAccounts_calls (setBanker n b s) = removeAccounts_calls s"
  by (simp_all add: setBanker_def)

lemma write_back_fields:
  "input_value (foldl (\<lambda>st r. setBanker (row_account_name r) (row_checked r) st) s rs) = input_value s \<and>
   sort_checked (foldl (\<lambda>st r. setBanker (row_account_name r) (row_checked r) st) s rs) = sort_checked s \<and>
   accounts_store (foldl (\<lambda>st r. setBanker (row_account_name r) (row_checked r) st) s rs) = accounts_store s \<and>
   rows (foldl (\<lambda>st r. setBanker (row_account_name r) (row_checked r) st) s rs) = rows s \<and>
   notifications (foldl (\<lambda>st r. setBanker (row_account_name r) (row_checked r) st) s rs) = notifications s \<and>
   getBankers_calls (foldl (\<lambda>st r. setBanker (row_account_name r) (row_checked r) st) s rs) = getBankers_calls s \<and>
   removeAccounts_calls (foldl (\<lambda>st r. setBanker (row_account_name r) (row_checked r) st) s rs) = removeAccounts_calls s"
  by (induction rs arbitrary: s) simp_all

lemma update_bankers_fields [simp]:
  "input_value (update_bankers s) = input_value s"
  "sort_checked (update_bankers s) = sort_checked s"
  "accounts_store (update_bankers s) = accounts_store s"
  "rows (update_bankers s) = rows s"
  "notifications (update_bankers s) = notifications s"
  "getBankers_calls (update_bankers s) = getBankers_calls s"
  "removeAccounts_calls (update_bankers s) = removeAccounts_calls s"
  using write_back_fields [of s "rows s"] by (simp_all add: update_bankers_def)

text \<open>parse changes the ghost counter at most.\<close>

lemma snd_parse:
  "snd (parse raw s) =
     (if search_name raw = ''IS:BANKER'' then s\<lparr>getBankers_calls := getBankers_calls s + 1\<rparr> else s)"
  by (simp add: parse_def getBankers_def Let_def)

lemma fst_parse_cong:
  assumes "set (bankers_store s) = set (bankers_store t)"
  shows "fst (parse raw s) = fst (parse raw t)"
  using assms by (simp add: parse_def getBankers_def Let_def)

lemma build_row_cong:
  "set (bankers_store s) = set (bankers_store t) \<Longrightarrow> build_row env s = build_row env t"
  by (rule ext) (simp add: build_row_def isBanker_def)

lemma matches_eq:
  "matches env s = sort_accounts env (sort_checked s) (filter (fst (parse (input_value s) s)) (accounts_store s))"
  by (simp add: matches_def split_beta snd_parse getAll_def)

lemma rows_run_pipeline:
  "rows (run_pipeline env s) = map (build_row env s) (take 300 (matches env s))"
  by (simp add: run_pipeline_def matches_eq split_beta snd_parse getAll_def showAccounts_def
      notify_def Let_def build_row_def isBanker_def)

lemma notifications_run_pipeline:
  "notifications (run_pipeline env s) =
     (if 300 < length (matches env s)
      then notifications s @ [''Showing 300/'' @ show_nat (length (matches env s)) @ '' matches'']
      else notifications s)"
  by (simp add: run_pipeline_def matches_eq split_beta snd_parse getAll_def showAccounts_def
      notify_def Let_def)

lemma run_pipeline_fields [simp]:
  "input_value (run_pipeline env s) = input_value s"
  "sort_checked (run_pipeline env s) = sort_checked s"
  "accounts_store (run_pipeline env s) = accounts_store s"
  "bankers_store (run_pipeline env s) = bankers_store s"
  "removeAccounts_calls (run_pipeline env s) = removeAccounts_calls s"
  by (simp_all add: run_pipeline_def split_beta snd_parse showAccounts_def notify_def Let_def)

lemma getBankers_calls_run_pipeline:
  "getBankers_calls (run_pipeline env s) =
     (if search_name (input_value s) = ''IS:BANKER'' then getBankers_calls s + 1 else getBankers_calls s)"
  by (simp add: run_pipeline_def split_beta snd_parse showAccounts_def notify_def Let_def)

lemma update_bankers_no_rows: "rows s = [] \<Longrightarrow> update_bankers s = s"
  by (simp add: update_bankers_def)

lemma update_bankers_page: "bankers_store (update_bankers page) = [''CY'', ''BOB'']"
  by (simp add: update_bankers_def page_def setBanker_def)

lemma checkNames_page: "map row_account_name (rows (checkNames host page)) = [''CY'', ''BOB'']"
proof -
  have i: "input_value page = '' is:banker ''" "sort_checked page = Bal_d"
    "accounts_store page = [acct ''AL'' 5 None, acct ''BOB'' 0 (Some 9), acct ''CY'' 7 None]"
    by (simp_all add: page_def)
  have n: "search_name '' is:banker '' = ''IS:BANKER''" by (simp add: str_eval)
  have "matches host (update_bankers page) = [acct ''CY'' 7 None, acct ''BOB'' 0 (Some 9)]"
    by (simp add: matches_eq i parse_def n getBankers_def update_bankers_page sort_accounts_def
        host_def stable_sort_def placed_def acct_def cmp_bal_d_def)
  then show ?thesis
    by (simp add: checkNames_def rows_run_pipeline build_row_def acct_def)
qed

subsection \<open>The filter of the bankers\<close>

text \<open>
  C6. When the search text, upper-cased and trimmed, is \<^verbatim>\<open>IS:BANKER\<close>, the filter
  accepts a record exactly when its name is in the banker store, whatever its balance
  and its award date; \<^verbatim>\<open>getBankers\<close> is called once by the parse, and once in the
  whole of \<^verbatim>\<open>checkNames\<close>, however many records are tested.
\<close>

theorem is_banker_filter:
  assumes "search_name raw = ''IS:BANKER''"
  shows "fst (parse raw s) a = (name a \<in> set (bankers_store s)) \<and>
         fst (parse raw s) (a\<lparr>balance := b, last_daily_award := t\<rparr>) = fst (parse raw s) a \<and>
         snd (parse raw s) = s\<lparr>getBankers_calls := getBankers_calls s + 1\<rparr> \<and>
         (input_value s = raw \<longrightarrow>
            getBankers_calls (checkNames env s) = getBankers_calls s + 1)"
  using assms
  by (simp add: parse_def getBankers_def checkNames_def getBankers_calls_run_pipeline)

theorem is_banker_filter_witness:
  "search_name '' is:banker '' = ''IS:BANKER'' \<and>
   fst (parse '' is:banker '' page) (acct ''CY'' 7 None) \<and>
   \<not> fst (parse '' is:banker '' page) (acct ''BOB'' 0 (Some 9)) \<and>
   getBankers_calls (snd (parse '' is:banker '' page)) = 1 \<and>
   input_value page = '' is:banker '' \<and>
   getBankers_calls (checkNames host page) = 1"
proof -
  have h: "search_name '' is:banker '' = ''IS:BANKER''" by (simp add: str_eval)
  from is_banker_filter [OF h, where s = page and a = "acct ''CY'' 7 None" and env = host]
    is_banker_filter [OF h, where s = page and a = "acct ''BOB'' 0 (Some 9)" and env = host] h
  show ?thesis by (simp add: page_def acct_def)
qed

subsection \<open>The cap\<close>

text \<open>
  C3. When the filtered and sorted list has more than 300 records, exactly the rows of
  its first 300 are shown and exactly one notice is added, with the cap and the length
  before the cut; when it has at most 300, all of it is shown and no notice is added.
\<close>

theorem cap_and_notice:
  "(300 < length (matches env (update_bankers s)) \<longrightarrow>
      length (rows (checkNames env s)) = 300 \<and>
      rows (checkNames env s) =
        map (build_row env (update_bankers s)) (take 300 (matches env (update_bankers s))) \<and>
      notifications (checkNames env s) =
        notifications s @
          [''Showing 300/'' @ show_nat (length (matches env (update_bankers s))) @ '' matches'']) \<and>
   (length (matches env (update_bankers s)) \<le> 300 \<longrightarrow>
      rows (checkNames env s) =
        map (build_row env (update_bankers s)) (matches env (update_bankers s)) \<and>
      notifications (checkNames env s) = notifications s)"
  by (simp add: checkNames_def rows_run_pipeline notifications_run_pipeline)

theorem cap_and_notice_witness:
  "300 < length (matches host (update_bankers crowd)) \<and>
   length (rows (checkNames host crowd)) = 300 \<and>
   notifications (checkNames host crowd) = [''Showing 300/301 matches''] \<and>
   length (matches host (update_bankers trio)) \<le> 300 \<and>
   map row_account_name (rows (checkNames host trio)) = [''AAA'', ''CCC''] \<and>
   notifications (checkNames host trio) = []"
proof -
  have c: "update_bankers crowd = crowd" and t: "update_bankers trio = trio"
    by (simp_all add: update_bankers_no_rows crowd_def trio_def empty_tab_def)
  have lc: "length (matches host crowd) = 301"
    by (simp add: matches_eq crowd_def empty_tab_def sort_accounts_def host_def
        length_stable_sort parse_def str_eval)
  have mt: "matches host trio = [acct ''AAA'' 10 (Some 5), acct ''CCC'' 10 None]"
    by (simp add: matches_eq trio_def empty_tab_def sort_accounts_def host_def
        stable_sort_def placed_def parse_def str_eval acct_def cmp_bal_d_def)
  have nc: "notifications crowd = []" and nt: "notifications trio = []"
    by (simp_all add: crowd_def trio_def empty_tab_def)
  from cap_and_notice [of host crowd] cap_and_notice [of host trio]
  show ?thesis
    by (simp add: c t lc mt nc nt str_eval build_row_def acct_def)
qed

subsection \<open>What the shown list depends on\<close>

text \<open>
  C7. Two runs of the pipeline on states that agree on the search text, the sort mode,
  the records and the set of bankers show the same rows, whatever the rest of the two
  states holds (the rows on the page, the notices, the logs). \<^verbatim>\<open>checkNames\<close> is the
  pipeline on the state its write-back leaves, so the set of bankers of its run is the
  one of the store after the write-back.
\<close>

theorem view_deterministic:
  "(input_value s = input_value t \<and> sort_checked s = sort_checked t \<and>
    accounts_store s = accounts_store t \<and> set (bankers_store s) = set (bankers_store t) \<longrightarrow>
      rows (run_pipeline env s) = rows (run_pipeline env t)) \<and>
   (input_value s = input_value t \<and> sort_checked s = sort_checked t \<and>
    accounts_store s = accounts_store t \<and>
    set (bankers_store (update_bankers s)) = set (bankers_store (update_bankers t)) \<longrightarrow>
      rows (checkNames env s) = rows (checkNames env t))"
proof -
  have p: "rows (run_pipeline env u) = rows (run_pipeline env v)"
    if "input_value u = input_value v" "sort_checked u = sort_checked v"
      "accounts_store u = accounts_store v" "set (bankers_store u) = set (bankers_store v)"
    for u v
  proof -
    from that have "matches env u = matches env v"
      by (simp add: matches_eq fst_parse_cong [of u v])
    with that(4) show ?thesis
      by (simp add: rows_run_pipeline build_row_cong [of u v])
  qed
  have "rows (checkNames env s) = rows (checkNames env t)"
    if "input_value s = input_value t" "sort_checked s = sort_checked t"
      "accounts_store s = accounts_store t"
      "set (bankers_store (update_bankers s)) = set (bankers_store (update_bankers t))"
    unfolding checkNames_def using that by (intro p) simp_all
  with p [of s t] show ?thesis by blast
qed

theorem view_deterministic_witness:
  "input_value page = input_value page_later \<and> sort_checked page = sort_checked page_later \<and>
   accounts_store page = accounts_store page_later \<and>
   set (bankers_store (update_bankers page)) = set (bankers_store (update_bankers page_later)) \<and>
   rows page \<noteq> rows page_later \<and> notifications page \<noteq> notifications page_later \<and>
   rows (checkNames host page) = rows (checkNames host page_later) \<and>
   rows (run_pipeline host (update_bankers page)) = rows (run_pipeline host page_later)"
proof -
  have l: "update_bankers page_later = page_later"
    by (simp add: update_bankers_no_rows page_later_def)
  have b: "set (bankers_store (update_bankers page)) = set (bankers_store page_later)"
    by (auto simp: update_bankers_page page_later_def)
  from view_deterministic [of page page_later host]
    view_deterministic [of "update_bankers page" page_later host] b
  show ?thesis
    by (simp add: l) (simp add: page_later_def page_def)
qed

subsection \<open>The deletion dialog\<close>

text \<open>
  C9. On \<^verbatim>\<open>Delete\<close>, \<^verbatim>\<open>removeAccounts\<close> is called once, with the names of the rows on the
  page in their order, the records of those names leave the store, and \<^verbatim>\<open>checkNames\<close>
  runs on the result. On any other answer the state is the one before: stores, rows and
  logs.
\<close>

theorem deletion_flow:
  "(response = ''Delete'' \<longrightarrow>
      delete_response env response s =
        checkNames env (removeAccounts (map row_account_name (rows s)) s) \<and>
      removeAccounts_calls (delete_response env response s) =
        removeAccounts_calls s @ [map row_account_name (rows s)] \<and>
      accounts_store (delete_response env response s) =
        filter (\<lambda>a. name a \<notin> row_account_name ` set (rows s)) (accounts_store s)) \<and>
   (response \<noteq> ''Delete'' \<longrightarrow> delete_response env response s = s)"
  by (simp add: delete_response_def checkNames_def removeAccounts_def)

theorem deletion_flow_witness:
  "removeAccounts_calls (delete_response host ''Delete'' page) = [[''BOB'', ''AL'']] \<and>
   accounts_store (delete_response host ''Delete'' page) = [acct ''CY'' 7 None] \<and>
   delete_response host ''Delete'' page = checkNames host (removeAccounts [''BOB'', ''AL''] page) \<and>
   ''Cancel'' \<noteq> ''Delete'' \<and> delete_response host ''Cancel'' page = page"
proof -
  have r: "map row_account_name (rows page) = [''BOB'', ''AL'']"
    "row_account_name ` set (rows page) = {''BOB'', ''AL''}"
    "removeAccounts_calls page = []"
    "accounts_store page = [acct ''AL'' 5 None, acct ''BOB'' 0 (Some 9), acct ''CY'' 7 None]"
    by (simp_all add: page_def)
  have d: "delete_response host ''Delete'' page =
        checkNames host (removeAccounts (map row_account_name (rows page)) page) \<and>
      removeAccounts_calls (delete_response host ''Delete'' page) =
        removeAccounts_calls page @ [map row_account_name (rows page)] \<and>
      accounts_store (delete_response host ''Delete'' page) =
        filter (\<lambda>a. name a \<notin> row_account_name ` set (rows page)) (accounts_store page)"
    using deletion_flow [of "''Delete''" host page] by blast
  have c: "delete_response host ''Cancel'' page = page"
    using deletion_flow [of "''Cancel''" host page] by simp
  note d1 = d [THEN conjunct1] and d2 = d [THEN conjunct2, THEN conjunct1]
    and d3 = d [THEN conjunct2, THEN conjunct2]
  from d2 have "removeAccounts_calls (delete_response host ''Delete'' page) = [[''BOB'', ''AL'']]"
    by (simp add: r)
  moreover from d3
  have "accounts_store (delete_response host ''Delete'' page) = [acct ''CY'' 7 None]"
    by (simp add: r acct_def)
  moreover from d1
  have "delete_response host ''Delete'' page = checkNames host (removeAccounts [''BOB'', ''AL''] page)"
    by (simp only: r)
  ultimately show ?thesis using c by simp
qed

subsection \<open>The sort of the host on the four comparators\<close>

lemmas cmp_defs = cmp_bal_d_def cmp_bal_a_def cmp_daily_d_def cmp_daily_a_def falsy_def epoch_of_def

lemma insert_behind_falsy_last:
  assumes "cmp = cmp_daily_d \<or> cmp = cmp_daily_a"
  shows "sorted_wrt (\<lambda>x y. falsy (last_daily_award y) \<longrightarrow> falsy (last_daily_award x)) es \<Longrightarrow>
    sorted_wrt (\<lambda>x y. falsy (last_daily_award y) \<longrightarrow> falsy (last_daily_award x))
      (insert_behind cmp x es)"
  using assms
  by (induction es) (auto simp: set_insert_behind cmp_daily_d_def cmp_daily_a_def split: if_splits)

lemma stable_sort_falsy_last:
  assumes "cmp = cmp_daily_d \<or> cmp = cmp_daily_a"
  shows "sorted_wrt (\<lambda>x y. falsy (last_daily_award x) \<longrightarrow> falsy (last_daily_award y))
           (stable_sort cmp xs)"
proof -
  have "sorted_wrt (\<lambda>x y. falsy (last_daily_award y) \<longrightarrow> falsy (last_daily_award x)) (placed cmp xs)"
    by (induction xs rule: rev_induct) (simp_all add: insert_behind_falsy_last [OF assms])
  then show ?thesis by (simp add: stable_sort_def sorted_wrt_rev)
qed

lemma sort_accounts_host: "sort_accounts host mode xs =
    (case mode of Bal_d \<Rightarrow> stable_sort cmp_bal_d xs | Bal_a \<Rightarrow> stable_sort cmp_bal_a xs
     | Daily_d \<Rightarrow> stable_sort cmp_daily_d xs | Daily_a \<Rightarrow> stable_sort cmp_daily_a xs
     | Other_sort \<Rightarrow> xs)"
  by (cases mode) (simp_all add: sort_accounts_def host_def)

lemma mset_sort_accounts_host: "mset (sort_accounts host mode xs) = mset xs"
  by (cases mode) (simp_all add: sort_accounts_host mset_stable_sort)

lemma falsy_behind:
  assumes m: "mode = Daily_d \<or> mode = Daily_a"
    and a: "falsy (last_daily_award a)" and b: "\<not> falsy (last_daily_award b)"
    and i: "i < length (sort_accounts host mode xs)" "sort_accounts host mode xs ! i = a"
    and j: "j < length (sort_accounts host mode xs)" "sort_accounts host mode xs ! j = b"
  shows "j < i"
proof (rule ccontr)
  assume "\<not> j < i"
  moreover from a b i j have "i \<noteq> j" by auto
  ultimately have lt: "i < j" by simp
  from m have "sorted_wrt (\<lambda>x y. falsy (last_daily_award x) \<longrightarrow> falsy (last_daily_award y))
      (sort_accounts host mode xs)"
    by (auto simp: sort_accounts_host stable_sort_falsy_last)
  from sorted_wrt_nth_less [OF this lt j(1)] a b i(2) j(2) show False by simp
qed

lemma cmp_never:
  "cmp_bal_d (never x) (never y) = cmp_bal_d x y"
  "cmp_bal_a (never x) (never y) = cmp_bal_a x y"
  "cmp_daily_d (never x) (never y) = cmp_daily_d x y"
  "cmp_daily_a (never x) (never y) = cmp_daily_a x y"
  by (simp_all add: never_def cmp_defs)

lemma sort_accounts_never:
  "map never (sort_accounts host mode xs) = sort_accounts host mode (map never xs)"
  by (cases mode) (simp_all add: sort_accounts_host map_stable_sort cmp_never)

lemma sort_accounts_keeps_balance:
  assumes "mode = Bal_d \<or> mode = Bal_a"
  shows "filter (\<lambda>x. balance x = k) (sort_accounts host mode xs) = filter (\<lambda>x. balance x = k) xs"
  using assms
  by (auto simp: sort_accounts_host cmp_bal_d_def cmp_bal_a_def intro!: stable_sort_keeps)

lemma sort_accounts_keeps_award:
  assumes "mode = Daily_d \<or> mode = Daily_a"
  shows "filter (\<lambda>x. last_daily_award x = t) (sort_accounts host mode xs)
       = filter (\<lambda>x. last_daily_award x = t) xs"
  using assms
  by (auto simp: sort_accounts_host cmp_daily_d_def cmp_daily_a_def intro!: stable_sort_keeps
      split: if_splits)

text \<open>The sorted list is in the order of the comparator.\<close>

lemma ordered_insert_behind:
  assumes asym: "\<And>u v. cmp u v < 0 \<Longrightarrow> \<not> cmp v u < 0"
    and ntr: "\<And>u v w. \<not> cmp u v < 0 \<Longrightarrow> \<not> cmp v w < 0 \<Longrightarrow> \<not> cmp u w < 0"
  shows "sorted_wrt (\<lambda>a b. \<not> cmp a b < 0) es \<Longrightarrow>
    sorted_wrt (\<lambda>a b. \<not> cmp a b < 0) (insert_behind cmp x es)"
proof (induction es)
  case Nil
  then show ?case by simp
next
  case (Cons e es)
  show ?case
  proof (cases "cmp x e < 0")
    case True
    from Cons.prems have "sorted_wrt (\<lambda>a b. \<not> cmp a b < 0) es" "\<forall>z\<in>set es. \<not> cmp e z < 0"
      by simp_all
    with True Cons.IH asym [OF True] show ?thesis
      by (simp add: set_insert_behind)
  next
    case False
    have "\<forall>z\<in>set es. \<not> cmp x z < 0"
      using Cons.prems False ntr by auto
    with False Cons.prems show ?thesis by simp
  qed
qed

lemma ordered_stable_sort:
  assumes asym: "\<And>u v. cmp u v < 0 \<Longrightarrow> \<not> cmp v u < 0"
    and ntr: "\<And>u v w. \<not> cmp u v < 0 \<Longrightarrow> \<not> cmp v w < 0 \<Longrightarrow> \<not> cmp u w < 0"
  shows "sorted_wrt (\<lambda>a b. \<not> cmp b a < 0) (stable_sort cmp xs)"
proof -
  have "sorted_wrt (\<lambda>a b. \<not> cmp a b < 0) (placed cmp xs)"
    by (induction xs rule: rev_induct) (simp_all add: ordered_insert_behind [OF asym ntr])
  then show ?thesis by (simp add: stable_sort_def sorted_wrt_rev)
qed

lemma sort_accounts_ordered:
  "(mode = Bal_d \<longrightarrow> sorted_wrt (\<lambda>x y. balance y \<le> balance x) (sort_accounts host mode xs)) \<and>
   (mode = Bal_a \<longrightarrow> sorted_wrt (\<lambda>x y. balance x \<le> balance y) (sort_accounts host mode xs)) \<and>
   (mode = Daily_d \<longrightarrow> sorted_wrt (\<lambda>x y. \<not> cmp_daily_d y x < 0) (sort_accounts host mode xs)) \<and>
   (mode = Daily_a \<longrightarrow> sorted_wrt (\<lambda>x y. \<not> cmp_daily_a y x < 0) (sort_accounts host mode xs))"
proof (intro conjI impI)
  have "sorted_wrt (\<lambda>a b. \<not> cmp_bal_d b a < 0) (stable_sort cmp_bal_d xs)"
    by (rule ordered_stable_sort) (simp_all add: cmp_bal_d_def)
  then show "sorted_wrt (\<lambda>x y. balance y \<le> balance x) (sort_accounts host mode xs)" if "mode = Bal_d"
    using that by (simp add: sort_accounts_host cmp_bal_d_def not_less)
  have "sorted_wrt (\<lambda>a b. \<not> cmp_bal_a b a < 0) (stable_sort cmp_bal_a xs)"
    by (rule ordered_stable_sort) (simp_all add: cmp_bal_a_def)
  then show "sorted_wrt (\<lambda>x y. balance x \<le> balance y) (sort_accounts host mode xs)" if "mode = Bal_a"
    using that by (simp add: sort_accounts_host cmp_bal_a_def not_less)
  have "sorted_wrt (\<lambda>a b. \<not> cmp_daily_d b a < 0) (stable_sort cmp_daily_d xs)"
    by (rule ordered_stable_sort) (auto simp: cmp_daily_d_def split: if_splits)
  then show "sorted_wrt (\<lambda>x y. \<not> cmp_daily_d y x < 0) (sort_accounts host mode xs)" if "mode = Daily_d"
    using that by (simp add: sort_accounts_host)
  have "sorted_wrt (\<lambda>a b. \<not> cmp_daily_a b a < 0) (stable_sort cmp_daily_a xs)"
    by (rule ordered_stable_sort) (auto simp: cmp_daily_a_def split: if_splits)
  then show "sorted_wrt (\<lambda>x y. \<not> cmp_daily_a y x < 0) (sort_accounts host mode xs)" if "mode = Daily_a"
    using that by (simp add: sort_accounts_host)
qed

subsection \<open>The comparators of the award date\<close>

text \<open>
  C4, as the code has it. Of two records, one with an absent or zero award date and one
  with a nonzero date, the comparators of both award modes put the first after the
  second, whichever way round they are asked; and in the list that either award mode
  sorts, whatever its length, every place of the first is behind every place of the
  second.
\<close>

theorem absent_last:
  assumes "falsy (last_daily_award a)" and "\<not> falsy (last_daily_award b)"
    and "mode = Daily_d \<or> mode = Daily_a"
  shows "0 < cmp_daily_d a b \<and> cmp_daily_d b a < 0 \<and> 0 < cmp_daily_a a b \<and> cmp_daily_a b a < 0 \<and>
         sort_accounts host mode [a, b] = [b, a] \<and> sort_accounts host mode [b, a] = [b, a] \<and>
         mset (sort_accounts host mode xs) = mset xs \<and>
         (\<forall>i j. i < length (sort_accounts host mode xs) \<and> j < length (sort_accounts host mode xs) \<and>
                sort_accounts host mode xs ! i = a \<and> sort_accounts host mode xs ! j = b \<longrightarrow> j < i)"
proof -
  from assms(1,2) have "0 < cmp_daily_d a b \<and> cmp_daily_d b a < 0 \<and>
      0 < cmp_daily_a a b \<and> cmp_daily_a b a < 0"
    by (simp add: cmp_daily_d_def cmp_daily_a_def)
  moreover from this assms(3)
  have "sort_accounts host mode [a, b] = [b, a] \<and> sort_accounts host mode [b, a] = [b, a]"
    by (auto simp: sort_accounts_host stable_sort_def placed_def)
  moreover have "mset (sort_accounts host mode xs) = mset xs"
    by (rule mset_sort_accounts_host)
  moreover have "\<forall>i j. i < length (sort_accounts host mode xs) \<and>
      j < length (sort_accounts host mode xs) \<and>
      sort_accounts host mode xs ! i = a \<and> sort_accounts host mode xs ! j = b \<longrightarrow> j < i"
    using falsy_behind [OF assms(3,1,2)] by blast
  ultimately show ?thesis by blast
qed

theorem absent_last_witness:
  "falsy (last_daily_award (acct ''N'' 3 None)) \<and> \<not> falsy (last_daily_award (acct ''B'' 1 (Some 9))) \<and>
   (Daily_a = Daily_d \<or> Daily_a = Daily_a) \<and>
   cmp_daily_d (acct ''N'' 3 None) (acct ''B'' 1 (Some 9)) = 1 \<and> cmp_daily_a (acct ''B'' 1 (Some 9)) (acct ''N'' 3 None) = - 1 \<and>
   sort_accounts host Daily_a [acct ''N'' 3 None, acct ''Z'' 2 (Some 0), acct ''B'' 1 (Some 9)] = [acct ''B'' 1 (Some 9), acct ''N'' 3 None, acct ''Z'' 2 (Some 0)] \<and>
   mset (sort_accounts host Daily_a [acct ''N'' 3 None, acct ''Z'' 2 (Some 0), acct ''B'' 1 (Some 9)]) = mset [acct ''N'' 3 None, acct ''Z'' 2 (Some 0), acct ''B'' 1 (Some 9)] \<and>
   sort_accounts host Daily_a [acct ''N'' 3 None, acct ''Z'' 2 (Some 0), acct ''B'' 1 (Some 9)] ! 1 = acct ''N'' 3 None \<and>
   sort_accounts host Daily_a [acct ''N'' 3 None, acct ''Z'' 2 (Some 0), acct ''B'' 1 (Some 9)] ! 0 = acct ''B'' 1 (Some 9) \<and> (0::nat) < 1"
proof -
  have h: "falsy (last_daily_award (acct ''N'' 3 None))" "\<not> falsy (last_daily_award (acct ''B'' 1 (Some 9)))"
    "Daily_a = Daily_d \<or> Daily_a = Daily_a"
    by (simp_all add: falsy_def acct_def)
  have e: "sort_accounts host Daily_a [acct ''N'' 3 None, acct ''Z'' 2 (Some 0), acct ''B'' 1 (Some 9)] = [acct ''B'' 1 (Some 9), acct ''N'' 3 None, acct ''Z'' 2 (Some 0)]"
    by (simp add: sort_accounts_host stable_sort_def placed_def cmp_defs acct_def)
  from absent_last [OF h, of "[acct ''N'' 3 None, acct ''Z'' 2 (Some 0), acct ''B'' 1 (Some 9)]"] h e show ?thesis
    by (simp add: cmp_daily_d_def cmp_daily_a_def)
qed

text \<open>
  C4 as the spec states it fails: of a record with an absent date and a record with the
  date 0, exactly one has an absent date; the comparators put the one with the date
  after the other, and both award modes leave the pair as it came, the record with the
  absent date in front.
\<close>

theorem absent_before_zero_counterexample:
  "last_daily_award (acct ''N'' 0 None) = None \<and> last_daily_award (acct ''Z'' 0 (Some 0)) \<noteq> None \<and>
   0 < cmp_daily_d (acct ''Z'' 0 (Some 0)) (acct ''N'' 0 None) \<and>
   0 < cmp_daily_a (acct ''Z'' 0 (Some 0)) (acct ''N'' 0 None) \<and>
   sort_accounts host Daily_d [acct ''N'' 0 None, acct ''Z'' 0 (Some 0)] =
     [acct ''N'' 0 None, acct ''Z'' 0 (Some 0)] \<and>
   sort_accounts host Daily_a [acct ''N'' 0 None, acct ''Z'' 0 (Some 0)] =
     [acct ''N'' 0 None, acct ''Z'' 0 (Some 0)]"
  by (simp add: cmp_defs sort_accounts_host stable_sort_def placed_def acct_def)

text \<open>
  C10. A record with the award date 0 is treated as the same record without a date:
  the date is rendered as \<^verbatim>\<open>Never\<close>, the row is the same, the filter and the four
  comparators answer the same, and sorting commutes with erasing the dates of zero.
  Both award comparators put the record after every record with a nonzero date, and in
  the list that either award mode sorts, whatever its length, every place of the record
  is behind every place of a record with a nonzero date.
\<close>

theorem zero_is_never:
  assumes "last_daily_award a = Some 0"
  shows "formatDate env (last_daily_award a) = ''Never'' \<and>
         build_row env s a = build_row env s (a\<lparr>last_daily_award := None\<rparr>) \<and>
         fst (parse raw s) a = fst (parse raw s) (a\<lparr>last_daily_award := None\<rparr>) \<and>
         cmp_bal_d a b = cmp_bal_d (a\<lparr>last_daily_award := None\<rparr>) b \<and>
         cmp_bal_d b a = cmp_bal_d b (a\<lparr>last_daily_award := None\<rparr>) \<and>
         cmp_bal_a a b = cmp_bal_a (a\<lparr>last_daily_award := None\<rparr>) b \<and>
         cmp_bal_a b a = cmp_bal_a b (a\<lparr>last_daily_award := None\<rparr>) \<and>
         cmp_daily_d a b = cmp_daily_d (a\<lparr>last_daily_award := None\<rparr>) b \<and>
         cmp_daily_d b a = cmp_daily_d b (a\<lparr>last_daily_award := None\<rparr>) \<and>
         cmp_daily_a a b = cmp_daily_a (a\<lparr>last_daily_award := None\<rparr>) b \<and>
         cmp_daily_a b a = cmp_daily_a b (a\<lparr>last_daily_award := None\<rparr>) \<and>
         (last_daily_award b = Some t \<and> t \<noteq> 0 \<longrightarrow>
            0 < cmp_daily_d a b \<and> cmp_daily_d b a < 0 \<and>
            0 < cmp_daily_a a b \<and> cmp_daily_a b a < 0) \<and>
         never a = a\<lparr>last_daily_award := None\<rparr> \<and>
         map never (sort_accounts host mode xs) = sort_accounts host mode (map never xs) \<and>
         (last_daily_award b = Some t \<and> t \<noteq> 0 \<and> (mode = Daily_d \<or> mode = Daily_a) \<longrightarrow>
            (\<forall>i j. i < length (sort_accounts host mode xs) \<and>
                   j < length (sort_accounts host mode xs) \<and>
                   sort_accounts host mode xs ! i = a \<and> sort_accounts host mode xs ! j = b
                   \<longrightarrow> j < i))"
proof -
  have p: "formatDate env (last_daily_award a) = ''Never'' \<and>
         build_row env s a = build_row env s (a\<lparr>last_daily_award := None\<rparr>) \<and>
         fst (parse raw s) a = fst (parse raw s) (a\<lparr>last_daily_award := None\<rparr>) \<and>
         cmp_bal_d a b = cmp_bal_d (a\<lparr>last_daily_award := None\<rparr>) b \<and>
         cmp_bal_d b a = cmp_bal_d b (a\<lparr>last_daily_award := None\<rparr>) \<and>
         cmp_bal_a a b = cmp_bal_a (a\<lparr>last_daily_award := None\<rparr>) b \<and>
         cmp_bal_a b a = cmp_bal_a b (a\<lparr>last_daily_award := None\<rparr>) \<and>
         cmp_daily_d a b = cmp_daily_d (a\<lparr>last_daily_award := None\<rparr>) b \<and>
         cmp_daily_d b a = cmp_daily_d b (a\<lparr>last_daily_award := None\<rparr>) \<and>
         cmp_daily_a a b = cmp_daily_a (a\<lparr>last_daily_award := None\<rparr>) b \<and>
         cmp_daily_a b a = cmp_daily_a b (a\<lparr>last_daily_award := None\<rparr>) \<and>
         (last_daily_award b = Some t \<and> t \<noteq> 0 \<longrightarrow>
            0 < cmp_daily_d a b \<and> cmp_daily_d b a < 0 \<and>
            0 < cmp_daily_a a b \<and> cmp_daily_a b a < 0) \<and>
         never a = a\<lparr>last_daily_award := None\<rparr>"
    using assms
    by (simp add: formatDate_def build_row_def parse_def getBankers_def Let_def cmp_defs never_def)
  have q: "map never (sort_accounts host mode xs) = sort_accounts host mode (map never xs)"
    by (rule sort_accounts_never)
  have r: "\<forall>i j. i < length (sort_accounts host mode xs) \<and>
      j < length (sort_accounts host mode xs) \<and>
      sort_accounts host mode xs ! i = a \<and> sort_accounts host mode xs ! j = b \<longrightarrow> j < i"
    if "last_daily_award b = Some t" "t \<noteq> 0" "mode = Daily_d \<or> mode = Daily_a"
  proof -
    from assms that have "falsy (last_daily_award a)" "\<not> falsy (last_daily_award b)"
      by (simp_all add: falsy_def)
    from falsy_behind [OF that(3) this] show ?thesis by blast
  qed
  from p q r show ?thesis by blast
qed

theorem zero_is_never_witness:
  "last_daily_award (acct ''Z'' 2 (Some 0)) = Some 0 \<and>
   formatDate host (last_daily_award (acct ''Z'' 2 (Some 0))) = ''Never'' \<and>
   row_award_text (build_row host empty_tab (acct ''Z'' 2 (Some 0))) = ''Never'' \<and>
   last_daily_award (acct ''B'' 1 (Some 9)) = Some 9 \<and> (9::int) \<noteq> 0 \<and>
   (Daily_d = Daily_d \<or> Daily_d = Daily_a) \<and>
   cmp_daily_d (acct ''Z'' 2 (Some 0)) (acct ''B'' 1 (Some 9)) = 1 \<and> cmp_daily_a (acct ''B'' 1 (Some 9)) (acct ''Z'' 2 (Some 0)) = - 1 \<and>
   sort_accounts host Daily_d [acct ''Z'' 2 (Some 0), acct ''B'' 1 (Some 9), acct ''N'' 3 None] = [acct ''B'' 1 (Some 9), acct ''Z'' 2 (Some 0), acct ''N'' 3 None] \<and>
   sort_accounts host Daily_d [acct ''Z'' 2 (Some 0), acct ''B'' 1 (Some 9), acct ''N'' 3 None] ! 1 = acct ''Z'' 2 (Some 0) \<and>
   sort_accounts host Daily_d [acct ''Z'' 2 (Some 0), acct ''B'' 1 (Some 9), acct ''N'' 3 None] ! 0 = acct ''B'' 1 (Some 9) \<and> (0::nat) < 1 \<and>
   map never (sort_accounts host Daily_d [acct ''Z'' 2 (Some 0), acct ''B'' 1 (Some 9), acct ''N'' 3 None]) =
     sort_accounts host Daily_d (map never [acct ''Z'' 2 (Some 0), acct ''B'' 1 (Some 9), acct ''N'' 3 None])"
proof -
  have h: "last_daily_award (acct ''Z'' 2 (Some 0)) = Some 0" by (simp add: acct_def)
  have e: "sort_accounts host Daily_d [acct ''Z'' 2 (Some 0), acct ''B'' 1 (Some 9), acct ''N'' 3 None] = [acct ''B'' 1 (Some 9), acct ''Z'' 2 (Some 0), acct ''N'' 3 None]"
    by (simp add: sort_accounts_host stable_sort_def placed_def cmp_defs acct_def)
  note z = zero_is_never [OF h, where b = "acct ''B'' 1 (Some 9)" and t = 9 and env = host and s = empty_tab
      and mode = Daily_d and xs = "[acct ''Z'' 2 (Some 0), acct ''B'' 1 (Some 9), acct ''N'' 3 None]"]
  note z1 = z [THEN conjunct1] and z14 = z [THEN conjunct2, THEN conjunct2, THEN conjunct2,
      THEN conjunct2, THEN conjunct2, THEN conjunct2, THEN conjunct2, THEN conjunct2,
      THEN conjunct2, THEN conjunct2, THEN conjunct2, THEN conjunct2, THEN conjunct2,
      THEN conjunct1]
  have "map never (sort_accounts host Daily_d [acct ''Z'' 2 (Some 0), acct ''B'' 1 (Some 9), acct ''N'' 3 None]) =
      sort_accounts host Daily_d (map never [acct ''Z'' 2 (Some 0), acct ''B'' 1 (Some 9), acct ''N'' 3 None])"
    by (rule z14)
  moreover have "formatDate host (last_daily_award (acct ''Z'' 2 (Some 0))) = ''Never''"
    by (rule z1)
  moreover have "row_award_text (build_row host empty_tab (acct ''Z'' 2 (Some 0))) = ''Never''"
    using z1 by (simp add: build_row_def)
  ultimately show ?thesis
    using h e by (simp add: acct_def cmp_defs)
qed

subsection \<open>Ties\<close>

text \<open>
  The comparators of the balance are consistent on every list, and so are those of the
  award date on a list where every record has a nonzero date: there every sort that
  meets the standard keeps tied records in their order. The sort of \<open>host\<close> meets
  the standard.
\<close>

lemma host_es_sort: "es_sort (array_sort host)"
  by (simp add: host_def es_sort_stable_sort)

lemma consistent_cmp_bal: "consistent cmp_bal_d S" "consistent cmp_bal_a S"
  by (auto simp: consistent_def cmp_bal_d_def cmp_bal_a_def)

lemma consistent_cmp_daily:
  assumes "\<forall>x\<in>S. \<not> falsy (last_daily_award x)"
  shows "consistent cmp_daily_d S" "consistent cmp_daily_a S"
  using assms by (auto simp: consistent_def cmp_daily_d_def cmp_daily_a_def)

lemma es_sort_set: "es_sort srt \<Longrightarrow> set (srt cmp xs) = set xs"
  by (metis es_sort_def set_mset_mset)

lemma es_sort_keeps_ties:
  assumes e: "es_sort srt" and c: "consistent cmp (set xs)"
    and key: "\<forall>x\<in>set xs. \<forall>y\<in>set xs. (cmp x y = 0) = (key x = key y)"
  shows "filter (\<lambda>x. key x = k) (srt cmp xs) = filter (\<lambda>x. key x = k) xs"
proof (cases "\<exists>z\<in>set xs. key z = k")
  case True
  then obtain z where z: "z \<in> set xs" "key z = k" by blast
  have "filter (\<lambda>x. key x = k) ys = filter (\<lambda>x. cmp z x = 0) ys" if "set ys \<subseteq> set xs" for ys
    using that z key by (intro filter_cong) auto
  from this [of "srt cmp xs"] this [of xs] e c z(1) show ?thesis
    by (simp add: es_sort_set [OF e]) (simp add: es_sort_def)
next
  case False
  then have "filter (\<lambda>x. key x = k) ys = []" if "set ys \<subseteq> set xs" for ys
    using that by (auto simp: filter_empty_conv)
  from this [of "srt cmp xs"] this [of xs] show ?thesis
    by (simp add: es_sort_set [OF e])
qed

lemma es_sort_stable_balance:
  assumes e: "es_sort (array_sort env)" and m: "mode = Bal_d \<or> mode = Bal_a"
  shows "filter (\<lambda>x. balance x = k) (sort_accounts env mode xs) = filter (\<lambda>x. balance x = k) xs"
proof -
  have d: "\<forall>x\<in>set xs. \<forall>y\<in>set xs. (cmp_bal_d x y = 0) = (balance x = balance y)"
    and a: "\<forall>x\<in>set xs. \<forall>y\<in>set xs. (cmp_bal_a x y = 0) = (balance x = balance y)"
    by (auto simp: cmp_bal_d_def cmp_bal_a_def)
  from m es_sort_keeps_ties [OF e consistent_cmp_bal(1) d, of k]
    es_sort_keeps_ties [OF e consistent_cmp_bal(2) a, of k]
  show ?thesis by (auto simp: sort_accounts_def)
qed

lemma es_sort_stable_daily:
  assumes e: "es_sort (array_sort env)" and m: "mode = Daily_d \<or> mode = Daily_a"
    and t: "\<forall>x\<in>set xs. \<not> falsy (last_daily_award x)"
  shows "filter (\<lambda>x. last_daily_award x = k) (sort_accounts env mode xs)
       = filter (\<lambda>x. last_daily_award x = k) xs"
proof -
  have d: "\<forall>x\<in>set xs. \<forall>y\<in>set xs. (cmp_daily_d x y = 0) = (last_daily_award x = last_daily_award y)"
    and a: "\<forall>x\<in>set xs. \<forall>y\<in>set xs. (cmp_daily_a x y = 0) = (last_daily_award x = last_daily_award y)"
    using t by (auto simp: cmp_daily_d_def cmp_daily_a_def falsy_def epoch_of_def split: option.splits)
  from m es_sort_keeps_ties [OF e consistent_cmp_daily(1) [OF t] d, of k]
    es_sort_keeps_ties [OF e consistent_cmp_daily(2) [OF t] a, of k]
  show ?thesis by (auto simp: sort_accounts_def)
qed

text \<open>
  For a record without a date the award comparators answer 1 against every record,
  itself and another record without a date included, where the balance comparators and
  the award comparators on equal dates answer 0: on a list with such a record they are
  no consistent comparison function.
\<close>

lemma award_comparators_inconsistent:
  assumes "a \<in> S" and "falsy (last_daily_award a)"
  shows "\<not> consistent cmp_daily_d S" "\<not> consistent cmp_daily_a S"
  using assms by (auto simp: consistent_def cmp_daily_d_def cmp_daily_a_def)

lemma both_absent_answers:
  assumes "falsy (last_daily_award a)"
  shows "cmp_daily_d a b = 1" "cmp_daily_a a b = 1"
  using assms by (simp_all add: cmp_daily_d_def cmp_daily_a_def)

text \<open>
  C5. Under every sort mode the records of one key are in the sorted list in the order
  they had in the filtered list: the records of one balance under the balance modes, the
  records of one date, or those without a date, under the award modes. No comparator
  answers negative for two records of one key, and the sort moves a record in front of
  an earlier one on a negative answer only. The sorted list holds the records of the
  filtered list, in the order of the comparator.
\<close>

theorem sort_stable:
  "(mode = Bal_d \<or> mode = Bal_a \<longrightarrow>
      filter (\<lambda>x. balance x = k) (sort_accounts host mode xs) = filter (\<lambda>x. balance x = k) xs) \<and>
   (mode = Daily_d \<or> mode = Daily_a \<longrightarrow>
      filter (\<lambda>x. last_daily_award x = t) (sort_accounts host mode xs) =
        filter (\<lambda>x. last_daily_award x = t) xs) \<and>
   (mode = Other_sort \<longrightarrow> sort_accounts host mode xs = xs) \<and>
   mset (sort_accounts host mode xs) = mset xs \<and>
   (mode = Bal_d \<longrightarrow> sorted_wrt (\<lambda>x y. balance y \<le> balance x) (sort_accounts host mode xs)) \<and>
   (mode = Bal_a \<longrightarrow> sorted_wrt (\<lambda>x y. balance x \<le> balance y) (sort_accounts host mode xs)) \<and>
   (mode = Daily_d \<longrightarrow> sorted_wrt (\<lambda>x y. \<not> cmp_daily_d y x < 0) (sort_accounts host mode xs)) \<and>
   (mode = Daily_a \<longrightarrow> sorted_wrt (\<lambda>x y. \<not> cmp_daily_a y x < 0) (sort_accounts host mode xs))"
proof (intro conjI impI)
  note o = sort_accounts_ordered [of mode xs]
  show "sorted_wrt (\<lambda>x y. balance y \<le> balance x) (sort_accounts host mode xs)" if "mode = Bal_d"
    using that o by blast
  show "sorted_wrt (\<lambda>x y. balance x \<le> balance y) (sort_accounts host mode xs)" if "mode = Bal_a"
    using that o by blast
  show "sorted_wrt (\<lambda>x y. \<not> cmp_daily_d y x < 0) (sort_accounts host mode xs)" if "mode = Daily_d"
    using that o by blast
  show "sorted_wrt (\<lambda>x y. \<not> cmp_daily_a y x < 0) (sort_accounts host mode xs)" if "mode = Daily_a"
    using that o by blast
  show "filter (\<lambda>x. balance x = k) (sort_accounts host mode xs) = filter (\<lambda>x. balance x = k) xs"
    if "mode = Bal_d \<or> mode = Bal_a"
    using that by (rule sort_accounts_keeps_balance)
  show "filter (\<lambda>x. last_daily_award x = t) (sort_accounts host mode xs) =
      filter (\<lambda>x. last_daily_award x = t) xs"
    if "mode = Daily_d \<or> mode = Daily_a"
    using that by (rule sort_accounts_keeps_award)
  show "sort_accounts host mode xs = xs" if "mode = Other_sort"
    using that by (simp add: sort_accounts_host)
  show "mset (sort_accounts host mode xs) = mset xs"
    by (rule mset_sort_accounts_host)
qed

theorem sort_stable_witness:
  "(Daily_d = Daily_d \<or> Daily_d = Daily_a) \<and>
   sort_accounts host Daily_d [acct ''N1'' 0 None, acct ''B'' 1 (Some 9), acct ''N2'' 0 None] =
     [acct ''B'' 1 (Some 9), acct ''N1'' 0 None, acct ''N2'' 0 None] \<and>
   filter (\<lambda>x. last_daily_award x = None)
     (sort_accounts host Daily_d [acct ''N1'' 0 None, acct ''B'' 1 (Some 9), acct ''N2'' 0 None]) =
     [acct ''N1'' 0 None, acct ''N2'' 0 None] \<and>
   (Bal_a = Bal_d \<or> Bal_a = Bal_a) \<and>
   filter (\<lambda>x. balance x = 10)
     (sort_accounts host Bal_a [acct ''CCC'' 10 None, acct ''BBB'' 2 None, acct ''AAA'' 10 None]) =
     [acct ''CCC'' 10 None, acct ''AAA'' 10 None]"
proof -
  have e: "sort_accounts host Daily_d [acct ''N1'' 0 None, acct ''B'' 1 (Some 9), acct ''N2'' 0 None] =
      [acct ''B'' 1 (Some 9), acct ''N1'' 0 None, acct ''N2'' 0 None]"
    by (simp add: sort_accounts_host stable_sort_def placed_def cmp_defs acct_def)
  note d = sort_stable [where mode = Daily_d and t = None
      and xs = "[acct ''N1'' 0 None, acct ''B'' 1 (Some 9), acct ''N2'' 0 None]", THEN conjunct2, THEN conjunct1]
  note b = sort_stable [where mode = Bal_a and k = 10
      and xs = "[acct ''CCC'' 10 None, acct ''BBB'' 2 None, acct ''AAA'' 10 None]", THEN conjunct1]
  from d have "filter (\<lambda>x. last_daily_award x = None)
      (sort_accounts host Daily_d [acct ''N1'' 0 None, acct ''B'' 1 (Some 9), acct ''N2'' 0 None]) =
      [acct ''N1'' 0 None, acct ''N2'' 0 None]"
    by (simp add: acct_def)
  moreover from b have "filter (\<lambda>x. balance x = 10)
      (sort_accounts host Bal_a [acct ''CCC'' 10 None, acct ''BBB'' 2 None, acct ''AAA'' 10 None]) =
      [acct ''CCC'' 10 None, acct ''AAA'' 10 None]"
    by (simp add: acct_def)
  ultimately show ?thesis using e by simp
qed

subsection \<open>The debounced listener\<close>

lemma input_event_quiet:
  assumes "timer p = None \<or> (\<exists>d. timer p = Some d \<and> fst ev < d)"
  shows "input_event env ev p =
    p\<lparr>tab := (tab p)\<lparr>input_value := snd ev\<rparr>, timer := Some (fst ev + 300)\<rparr>"
  using assms by (auto simp: input_event_def elapse_def debounced_checkNames_def Let_def)

lemma input_events_burst:
  assumes "evs \<noteq> []" and "burst evs"
    and "timer p = None \<or> (\<exists>d. timer p = Some d \<and> fst (hd evs) < d)"
  shows "input_events env evs p =
    p\<lparr>tab := (tab p)\<lparr>input_value := snd (last evs)\<rparr>, timer := Some (fst (last evs) + 300)\<rparr>"
  using assms
proof (induction evs arbitrary: p)
  case Nil
  then show ?case by simp
next
  case (Cons ev evs)
  from Cons.prems(3) have q: "input_event env ev p =
      p\<lparr>tab := (tab p)\<lparr>input_value := snd ev\<rparr>, timer := Some (fst ev + 300)\<rparr>"
    by (simp add: input_event_quiet)
  show ?case
  proof (cases evs)
    case Nil
    with q show ?thesis by simp
  next
    case (Cons ev' evs')
    with Cons.prems(2) have b: "burst evs" and g: "fst (hd evs) < fst ev + 300"
      by simp_all
    from Cons have ne: "evs \<noteq> []" by simp
    have "input_events env evs (input_event env ev p) =
        (input_event env ev p)\<lparr>tab := (tab (input_event env ev p))\<lparr>input_value := snd (last evs)\<rparr>,
          timer := Some (fst (last evs) + 300)\<rparr>"
      by (rule Cons.IH [OF ne b]) (simp add: q g)
    with ne show ?thesis by (simp add: q)
  qed
qed

text \<open>
  C8. After a burst of one or more input events, each less than 300 after the one
  before, with no call due before the first: up to 300 after the last event the timer
  has started no run; from then on it has started exactly one, at 300 after the last
  event, and that run is \<^verbatim>\<open>checkNames\<close> on the text the last event left in the field.
\<close>

theorem debounced_burst:
  assumes "evs \<noteq> []" and "burst evs"
    and "timer p = None \<or> (\<exists>d. timer p = Some d \<and> fst (hd evs) < d)"
  shows "(\<forall>T. T < fst (last evs) + 300 \<longrightarrow>
            timer_runs (elapse env T (input_events env evs p)) = timer_runs p) \<and>
         (\<forall>T. fst (last evs) + 300 \<le> T \<longrightarrow>
            timer_runs (elapse env T (input_events env evs p)) =
              timer_runs p @ [(fst (last evs) + 300, snd (last evs))] \<and>
            tab (elapse env T (input_events env evs p)) =
              checkNames env ((tab p)\<lparr>input_value := snd (last evs)\<rparr>) \<and>
            timer (elapse env T (input_events env evs p)) = None)"
  using assms by (simp add: input_events_burst elapse_def)

theorem debounced_burst_witness:
  "[(0::nat, ''b''), (120, ''bo''), (400, ''bob'')] \<noteq> [] \<and>
   burst [(0, ''b''), (120, ''bo''), (400, ''bob'')] \<and> timer idle = None \<and>
   timer_runs (elapse host 699 (input_events host [(0, ''b''), (120, ''bo''), (400, ''bob'')] idle)) = [] \<and>
   timer_runs (elapse host 700 (input_events host [(0, ''b''), (120, ''bo''), (400, ''bob'')] idle)) =
     [(700, ''bob'')] \<and>
   tab (elapse host 700 (input_events host [(0, ''b''), (120, ''bo''), (400, ''bob'')] idle)) =
     checkNames host (trio\<lparr>input_value := ''bob''\<rparr>)"
proof -
  have h: "[(0::nat, ''b''), (120, ''bo''), (400, ''bob'')] \<noteq> []"
    "burst [(0, ''b''), (120, ''bo''), (400, ''bob'')]"
    "timer idle = None \<or> (\<exists>d. timer idle = Some d \<and> fst (hd [(0, ''b''), (120, ''bo''), (400, ''bob'')]) < d)"
    by (simp_all add: idle_def)
  from debounced_burst [OF h, of host] h(1,2) show ?thesis
    by (simp add: idle_def)
qed

end
